theory Spec2Isabelle
  imports Main
begin

section \<open>Flags and flag sets (flag\_set.go)\<close>

text \<open>
  A \<open>Flag\<close> is a Go string, read here as its sequence of bytes. The map of a
  \<open>FlagSet\<close> is a Go map, which may be \<open>nil\<close>: reading a nil map finds no entry,
  assigning into it panics. \<open>None\<close> stands for the nil map.
\<close>

type_synonym Flag = string

type_synonym flag_map = "(Flag \<rightharpoonup> bool) option"

datatype panic = NilMapAssign

record FlagSet =
  flags :: flag_map
  all :: bool
  none :: bool

text \<open>
  Modelled from the spec: the two reserved flags \<open>FlagAll\<close> and \<open>FlagNone\<close> are declared
  outside the files at hand; the spec gives their text as \<open>all\<close> and \<open>none\<close>.
\<close>

definition FlagAll :: Flag where
  "FlagAll = ''all''"

definition FlagNone :: Flag where
  "FlagNone = ''none''"

text \<open>\<open>v, ok := m[k]\<close> and \<open>m[k] = v\<close> on a map that may be nil.\<close>

definition lookup :: "flag_map \<Rightarrow> Flag \<Rightarrow> bool option" where
  "lookup fm k = (case fm of None \<Rightarrow> None | Some m \<Rightarrow> m k)"

definition assign :: "flag_map \<Rightarrow> Flag \<Rightarrow> bool \<Rightarrow> panic + flag_map" where
  "assign fm k v = (case fm of None \<Rightarrow> Inl NilMapAssign | Some m \<Rightarrow> Inr (Some (m(k \<mapsto> v))))"

definition NewFlagSetAll :: FlagSet where
  "NewFlagSetAll = \<lparr>flags = Some Map.empty, all = True, none = False\<rparr>"

definition NewFlagSetNone :: FlagSet where
  "NewFlagSetNone = \<lparr>flags = Some Map.empty, all = False, none = True\<rparr>"

definition Enable :: "FlagSet \<Rightarrow> Flag \<Rightarrow> panic + FlagSet" where
  "Enable efs flag =
     (let efs1 = efs\<lparr>none := False\<rparr>
      in case assign (flags efs1) flag True of
           Inl p \<Rightarrow> Inl p
         | Inr fm \<Rightarrow> Inr (efs1\<lparr>flags := fm\<rparr>))"

definition Disable :: "FlagSet \<Rightarrow> Flag \<Rightarrow> panic + FlagSet" where
  "Disable efs flag =
     (case assign (flags efs) flag False of
        Inl p \<Rightarrow> Inl p
      | Inr fm \<Rightarrow> Inr (efs\<lparr>flags := fm\<rparr>))"

definition SetAll :: "FlagSet \<Rightarrow> FlagSet" where
  "SetAll efs = efs\<lparr>all := True, none := False\<rparr>"

definition SetNone :: "FlagSet \<Rightarrow> FlagSet" where
  "SetNone efs = efs\<lparr>all := False, flags := Some Map.empty, none := True\<rparr>"

definition IsEnabled :: "FlagSet \<Rightarrow> Flag \<Rightarrow> bool" where
  "IsEnabled efs flag =
     (if all efs then
        (case lookup (flags efs) flag of
           Some enabled \<Rightarrow> (if \<not> enabled then False else True)
         | None \<Rightarrow> True)
      else if none efs then False
      else if flags efs \<noteq> None then
        (case lookup (flags efs) flag of
           Some enabled \<Rightarrow> enabled
         | None \<Rightarrow> False)
      else False)"

subsection \<open>The string functions used by the parser and the printer\<close>

text \<open>
  Go's \<open>strings\<close> package on byte strings. \<open>ToLower\<close> is modelled on ASCII: the
  letters \<open>A\<close> to \<open>Z\<close> are mapped to \<open>a\<close> to \<open>z\<close> and every other byte is kept, so
  statements that involve it are made for ASCII text. The separator of \<open>Split\<close> is
  the one-byte string \<open>","\<close> in the source and a character here.
\<close>

definition is_upper :: "char \<Rightarrow> bool" where
  "is_upper c = (65 \<le> (of_char c :: nat) \<and> (of_char c :: nat) \<le> 90)"

definition is_ascii :: "string \<Rightarrow> bool" where
  "is_ascii s = list_all (\<lambda>c. (of_char c :: nat) < 128) s"

definition lower_char :: "char \<Rightarrow> char" where
  "lower_char c = (if is_upper c then char_of ((of_char c :: nat) + 32) else c)"

definition ToLower :: "string \<Rightarrow> string" where
  "ToLower s = map lower_char s"

definition TrimLeft :: "string \<Rightarrow> string \<Rightarrow> string" where
  "TrimLeft s cutset = dropWhile (\<lambda>c. c \<in> set cutset) s"

definition TrimRight :: "string \<Rightarrow> string \<Rightarrow> string" where
  "TrimRight s cutset = rev (dropWhile (\<lambda>c. c \<in> set cutset) (rev s))"

definition Trim :: "string \<Rightarrow> string \<Rightarrow> string" where
  "Trim s cutset = TrimRight (TrimLeft s cutset) cutset"

fun HasPrefix :: "string \<Rightarrow> string \<Rightarrow> bool" where
  "HasPrefix s [] = True"
| "HasPrefix [] (p # ps) = False"
| "HasPrefix (c # cs) (p # ps) = (c = p \<and> HasPrefix cs ps)"

definition TrimPrefix :: "string \<Rightarrow> string \<Rightarrow> string" where
  "TrimPrefix s p = (if HasPrefix s p then drop (length p) s else s)"

fun Split :: "string \<Rightarrow> char \<Rightarrow> string list" where
  "Split [] sep = [[]]"
| "Split (c # cs) sep =
     (if c = sep then [] # Split cs sep
      else (case Split cs sep of
              [] \<Rightarrow> [[c]]
            | t # ts \<Rightarrow> (c # t) # ts))"

fun Join :: "string list \<Rightarrow> string \<Rightarrow> string" where
  "Join [] sep = []"
| "Join [a] sep = a"
| "Join (a # b # r) sep = a @ sep @ Join (b # r) sep"

subsection \<open>Parsing and printing\<close>

text \<open>
  \<open>NewFlagSetFromCSV\<close> allocates the map on entry, so the assignments of its loop
  never meet a nil map: the loop runs on the allocated map and the two bits.
\<close>

definition cutset :: string where
  "cutset = [CHR '' '', CHR 0x09, CHR 0x0A]"

definition csv_step :: "(Flag \<rightharpoonup> bool) \<times> bool \<times> bool \<Rightarrow> string \<Rightarrow> (Flag \<rightharpoonup> bool) \<times> bool \<times> bool" where
  "csv_step st flag =
     (case st of (m, a, n) \<Rightarrow>
        let parsedFlag = Trim (ToLower flag) cutset;
            a1 = (if parsedFlag = FlagAll then True else a);
            n1 = (if parsedFlag = FlagNone then True else n)
        in if HasPrefix parsedFlag ''-''
           then (m(TrimPrefix parsedFlag ''-'' \<mapsto> False), a1, n1)
           else (m(parsedFlag \<mapsto> True), a1, n1))"

definition NewFlagSetFromCSV :: "string \<Rightarrow> FlagSet" where
  "NewFlagSetFromCSV flagCSV =
     (case foldl csv_step (Map.empty, False, False) (Split flagCSV (CHR '','')) of
        (m, a, n) \<Rightarrow> \<lparr>flags = Some m, all = a, none = n\<rparr>)"

text \<open>
  \<open>String\<close> ranges over the map. Go leaves the order of a \<open>range\<close> over a map open,
  so the order is an argument: \<open>ks\<close> lists the keys in the order this run of the
  loop visits them, and \<open>range_order\<close> says that it lists each key of the map once.
\<close>

definition range_order :: "flag_map \<Rightarrow> Flag list \<Rightarrow> bool" where
  "range_order fm ks = (distinct ks \<and> list_all (\<lambda>k. lookup fm k \<noteq> None) ks
     \<and> (case fm of None \<Rightarrow> True | Some m \<Rightarrow> dom m \<subseteq> set ks))"

definition String_step :: "FlagSet \<Rightarrow> string list \<Rightarrow> Flag \<Rightarrow> string list" where
  "String_step efs acc key =
     (case lookup (flags efs) key of
        None \<Rightarrow> acc
      | Some enabled \<Rightarrow>
          if key \<noteq> FlagAll then
            (if enabled then (if \<not> all efs then acc @ [key] else acc)
             else acc @ [''-'' @ key])
          else acc)"

definition String_tokens :: "FlagSet \<Rightarrow> Flag list \<Rightarrow> string list" where
  "String_tokens efs ks = foldl (String_step efs) (if all efs then [FlagAll] else []) ks"

definition String :: "FlagSet \<Rightarrow> Flag list \<Rightarrow> string" where
  "String efs ks = (if none efs then FlagNone else Join (String_tokens efs ks) '', '')"

text \<open>
  \<open>CoalesceWith\<close> ranges over the map of \<open>other\<close> (in the order \<open>ks\<close>) and assigns
  each entry into the receiver's map, which panics when that map is nil.
\<close>

fun assign_all :: "flag_map \<Rightarrow> flag_map \<Rightarrow> Flag list \<Rightarrow> panic + flag_map" where
  "assign_all fm src [] = Inr fm"
| "assign_all fm src (key # ks) =
     (case lookup src key of
        None \<Rightarrow> assign_all fm src ks
      | Some v \<Rightarrow>
          (case assign fm key v of
             Inl p \<Rightarrow> Inl p
           | Inr fm' \<Rightarrow> assign_all fm' src ks))"

definition CoalesceWith :: "FlagSet \<Rightarrow> FlagSet \<Rightarrow> Flag list \<Rightarrow> panic + FlagSet" where
  "CoalesceWith efs other ks =
     (let efs1 = (if all other then efs\<lparr>all := True\<rparr> else efs);
          efs2 = (if none other then efs1\<lparr>none := True\<rparr> else efs1)
      in case assign_all (flags efs2) (flags other) ks of
           Inl p \<Rightarrow> Inl p
         | Inr fm \<Rightarrow> Inr (efs2\<lparr>flags := fm\<rparr>))"

text \<open>
  \<open>NewFlagSet\<close> allocates the map and enables the given flags in turn.
\<close>

fun Enable_each :: "FlagSet \<Rightarrow> Flag list \<Rightarrow> panic + FlagSet" where
  "Enable_each efs [] = Inr efs"
| "Enable_each efs (flag # rest) =
     (case Enable efs flag of
        Inl p \<Rightarrow> Inl p
      | Inr efs' \<Rightarrow> Enable_each efs' rest)"

definition NewFlagSet :: "Flag list \<Rightarrow> panic + FlagSet" where
  "NewFlagSet fs = Enable_each \<lparr>flags = Some Map.empty, all = False, none = False\<rparr> fs"

subsection \<open>Notions used in the statements about parsing\<close>

text \<open>
  What the parser makes of one token: \<open>parsed\<close> is the token in lower case and
  trimmed, \<open>token_key\<close> the key it assigns and \<open>token_val\<close> the value it assigns.
  A \<open>plain_flag\<close> is a key that the printer and the parser carry unchanged: ASCII
  without capitals, commas, surrounding blanks or a leading dash, and neither of the
  reserved words.
\<close>

definition parsed :: "string \<Rightarrow> string" where
  "parsed flag = Trim (ToLower flag) cutset"

definition token_key :: "string \<Rightarrow> Flag" where
  "token_key p = TrimPrefix p ''-''"

definition token_val :: "string \<Rightarrow> bool" where
  "token_val p = (\<not> HasPrefix p ''-'')"

definition plain_flag :: "Flag \<Rightarrow> bool" where
  "plain_flag k = (is_ascii k \<and> ToLower k = k \<and> Trim k cutset = k \<and> CHR '','' \<notin> set k
     \<and> \<not> HasPrefix k ''-'' \<and> k \<noteq> FlagAll \<and> k \<noteq> FlagNone)"

section \<open>The worker (worker.go)\<close>

text \<open>
  A call of the listener either returns or panics with a value. \<open>recover\<close>, called
  by a deferred function, hands back the value of the panic under way and ends it,
  and hands back nil when there is none. Panic values are taken to be non-nil.
\<close>

datatype 'r exit = Returned | Panicked 'r

definition recover :: "'r exit \<Rightarrow> 'r option \<times> 'r exit" where
  "recover x = (case x of Returned \<Rightarrow> (None, Returned) | Panicked v \<Rightarrow> (Some v, Returned))"

text \<open>
  The worker runs in two threads of control: its own loop, started by \<open>Start\<close>, and
  the caller of \<open>Stop\<close> and \<open>Drain\<close>.
\<close>

datatype thread = LoopThread | CallerThread

text \<open>
  The fields of the struct: \<open>Parent\<close> is nil or the parent logger, seen as the list of
  fatal reports it has received; \<open>Work\<close> is the buffered channel, oldest event first.
  The channels \<open>Abort\<close> and \<open>Aborted\<close> carry the handshake of \<open>Stop\<close>, which is
  modelled there. Two more fields observe the callback: \<open>calls\<close> lists the events
  the listener has been called with, each with the thread that called it, and
  \<open>lstate\<close> is whatever state the listener acts on.
\<close>

record ('e, 'r, 's) Worker =
  Parent :: "'r list option"
  Listener :: "'e \<Rightarrow> 's \<Rightarrow> 'r exit \<times> 's"
  Work :: "'e list"
  IsRunning :: bool
  calls :: "(thread \<times> 'e) list"
  lstate :: 's

definition DefaultWorkerQueueDepth :: nat where
  "DefaultWorkerQueueDepth = 2 ^ 20"

definition NewWorker :: "'r list option \<Rightarrow> ('e \<Rightarrow> 's \<Rightarrow> 'r exit \<times> 's) \<Rightarrow> 's \<Rightarrow> ('e, 'r, 's) Worker" where
  "NewWorker parent listener s0 =
     \<lparr>Parent = parent, Listener = listener, Work = [], IsRunning = False, calls = [], lstate = s0\<rparr>"

text \<open>
  Modelled from the spec: \<open>SyncFatalf\<close> belongs to the logger, which is not among the
  files at hand; the spec describes it as a synchronous fatal-severity report to the
  parent sink. The report is appended to what the parent has received.
\<close>

definition SyncFatalf :: "'r list \<Rightarrow> 'r \<Rightarrow> 'r list" where
  "SyncFatalf p r = p @ [r]"

text \<open>
  Modelled from the spec: the dispatcher, not among the files at hand, sends an event
  on \<open>Work\<close>. The send completes while the channel has room and blocks
  (\<open>None\<close>) when it is full.
\<close>

definition Enqueue :: "('e, 'r, 's) Worker \<Rightarrow> 'e \<Rightarrow> ('e, 'r, 's) Worker option" where
  "Enqueue w e =
     (if length (Work w) < DefaultWorkerQueueDepth then Some (w\<lparr>Work := Work w @ [e]\<rparr>) else None)"

text \<open>
  \<open>Process\<close>: the body calls the listener; the deferred function then runs on either
  exit. The first component of the result is how \<open>Process\<close> itself exits.
\<close>

definition Process :: "thread \<Rightarrow> ('e, 'r, 's) Worker \<Rightarrow> 'e \<Rightarrow> 'r exit \<times> ('e, 'r, 's) Worker" where
  "Process th w e =
     (case Listener w e (lstate w) of
        (x, s') \<Rightarrow>
          let w1 = w\<lparr>calls := calls w @ [(th, e)], lstate := s'\<rparr>
          in case recover x of
               (None, x') \<Rightarrow> (x', w1)
             | (Some r, x') \<Rightarrow>
                 (case Parent w1 of
                    None \<Rightarrow> (x', w1)
                  | Some p \<Rightarrow> (x', w1\<lparr>Parent := Some (SyncFatalf p r)\<rparr>)))"

text \<open>
  \<open>ProcessLoop\<close>: each turn of the loop is a \<open>select\<close> between a receive on \<open>Work\<close>
  and a receive on \<open>Abort\<close>. Which case a turn takes is the scheduler's choice, so
  the choices are an argument: the loop is run on the list of cases its turns take.
  A turn that would take the \<open>Work\<close> case on an empty channel waits. A panic that
  leaves \<open>Process\<close> would end the goroutine, and the program with it.
\<close>

datatype pick = WorkCase | AbortCase

datatype 'r status = Waiting | Exited | Crashed 'r

fun loop :: "pick list \<Rightarrow> ('e, 'r, 's) Worker \<Rightarrow> 'r status \<times> ('e, 'r, 's) Worker" where
  "loop [] w = (if IsRunning w then Waiting else Exited, w)"
| "loop (p # ps) w =
     (if \<not> IsRunning w then (Exited, w)
      else case p of
             AbortCase \<Rightarrow> (Exited, w\<lparr>IsRunning := False\<rparr>)
           | WorkCase \<Rightarrow>
               (case Work w of
                  [] \<Rightarrow> (Waiting, w)
                | e # q \<Rightarrow>
                    (case Process LoopThread (w\<lparr>Work := q\<rparr>) e of
                       (Panicked v, w') \<Rightarrow> (Crashed v, w')
                     | (Returned, w') \<Rightarrow> loop ps w')))"

definition ProcessLoop :: "pick list \<Rightarrow> ('e, 'r, 's) Worker \<Rightarrow> 'r status \<times> ('e, 'r, 's) Worker" where
  "ProcessLoop ps w = loop ps (w\<lparr>IsRunning := True\<rparr>)"

text \<open>
  \<open>Stop\<close> returns at once when the worker is not running. Otherwise it sends on
  \<open>Abort\<close> and waits for the answer on \<open>Aborted\<close>. Until the loop takes the
  \<open>Abort\<close> case it may go on taking the \<open>Work\<close> case: \<open>n\<close> is the number of
  events it still receives, at most those in the channel. No producer sends
  meanwhile. \<open>Stop\<close> fails when the loop crashes, or never answers.
\<close>

datatype 'r failure = Crash 'r | Blocked

definition Stop :: "nat \<Rightarrow> ('e, 'r, 's) Worker \<Rightarrow> 'r failure + ('e, 'r, 's) Worker" where
  "Stop n w =
     (if \<not> IsRunning w then Inr w
      else case loop (replicate (min n (length (Work w))) WorkCase @ [AbortCase]) w of
             (Exited, w') \<Rightarrow> Inr w'
           | (Crashed v, w') \<Rightarrow> Inl (Crash v)
           | (Waiting, w') \<Rightarrow> Inl Blocked)"

function drain_loop :: "('e, 'r, 's) Worker \<Rightarrow> 'r failure + ('e, 'r, 's) Worker" where
  "drain_loop w =
     (case Work w of
        [] \<Rightarrow> Inr w
      | e # q \<Rightarrow>
          (case Process CallerThread (w\<lparr>Work := q\<rparr>) e of
             (Panicked v, w') \<Rightarrow> Inl (Crash v)
           | (Returned, w') \<Rightarrow> drain_loop w'))"
  by pat_completeness auto
termination
  by (relation "measure (\<lambda>w. length (Work w))")
     (auto simp: Process_def Let_def recover_def split: prod.splits exit.splits option.splits)

definition Drain :: "nat \<Rightarrow> ('e, 'r, 's) Worker \<Rightarrow> 'r failure + ('e, 'r, 's) Worker" where
  "Drain n w = (case Stop n w of Inl f \<Rightarrow> Inl f | Inr w1 \<Rightarrow> drain_loop w1)"

section \<open>The text writer (text\_writer.go)\<close>

text \<open>
  The colour catalogue, the flag colours, the clock and the formatting of a time are
  not among the files at hand: they are the fields of \<open>deps\<close>, left open.
\<close>

type_synonym AnsiColor = string

record 't deps =
  Apply :: "AnsiColor \<Rightarrow> string \<Rightarrow> string"
  GetFlagTextColor :: "Flag \<Rightarrow> AnsiColor"
  Format :: "'t \<Rightarrow> string \<Rightarrow> string"
  NowUTC :: 't
  ColorBlue :: AnsiColor
  ColorGray :: AnsiColor

text \<open>
  Modelled from the spec: the two runes are declared outside the files at hand; the
  spec has a separator between the columns and a newline at the end of the line.
  \<open>DefaultTextTimeFormat\<close> is \<open>time.RFC3339\<close> of Go's library.
\<close>

definition RuneSpace :: char where
  "RuneSpace = CHR '' ''"

definition RuneNewline :: char where
  "RuneNewline = CHR 0x0A"

definition DefaultTextTimeFormat :: string where
  "DefaultTextTimeFormat = ''2006-01-02T15:04:05Z07:00''"

record TextWriter =
  showTimestamp :: bool
  showLabel :: bool
  useColor :: bool
  timeFormat :: string
  label :: string

text \<open>
  An event has a flag and a timestamp; each of the three optional interfaces is
  \<open>None\<close> when the event does not implement it. \<open>WriteText\<close> is given the writer
  and the buffer and returns the buffer as it leaves it.
\<close>

record 't Event =
  Flag :: Flag
  Timestamp :: 't
  FlagTextColor :: "AnsiColor option"
  WriteText :: "(TextWriter \<Rightarrow> string \<Rightarrow> string) option"
  Stringer :: "string option"

definition Colorize :: "TextWriter \<Rightarrow> 't deps \<Rightarrow> string \<Rightarrow> AnsiColor \<Rightarrow> string" where
  "Colorize wr d v color = (if useColor wr then Apply d color v else v)"

definition FormatFlag :: "TextWriter \<Rightarrow> 't deps \<Rightarrow> Flag \<Rightarrow> AnsiColor \<Rightarrow> string" where
  "FormatFlag wr d flag color = ''['' @ Colorize wr d flag color @ '']''"

definition FormatLabel :: "TextWriter \<Rightarrow> 't deps \<Rightarrow> string" where
  "FormatLabel wr d = ''['' @ Colorize wr d (label wr) (ColorBlue d) @ '']''"

definition FormatTimestamp :: "TextWriter \<Rightarrow> 't deps \<Rightarrow> 't list \<Rightarrow> string" where
  "FormatTimestamp wr d optionalTime =
     (let tf = (if length (timeFormat wr) > 0 then timeFormat wr else DefaultTextTimeFormat)
      in case optionalTime of
           t # _ \<Rightarrow> Colorize wr d (Format d t tf) (ColorGray d)
         | [] \<Rightarrow> Colorize wr d (Format d (NowUTC d) tf) (ColorGray d))"

text \<open>
  \<open>write_to\<close> is the method \<open>write\<close>, whose name Isabelle reserves. It fills the
  leased buffer \<open>buf\<close> and hands it to the output in one call;
  the result is what was handed over, with the error the output answered.
\<close>

definition write_to :: "TextWriter \<Rightarrow> 't deps \<Rightarrow> (string \<Rightarrow> 'x option) \<Rightarrow> string \<Rightarrow> 't Event \<Rightarrow> string \<times> 'x option" where
  "write_to wr d output buf e =
     (let buf1 = (if showTimestamp wr
                  then buf @ FormatTimestamp wr d [Timestamp e] @ [RuneSpace] else buf);
          buf2 = (if showLabel wr \<and> length (label wr) > 0
                  then buf1 @ FormatLabel wr d @ [RuneSpace] else buf1);
          buf3 = (case FlagTextColor e of
                    Some flagColor \<Rightarrow>
                      if length flagColor > 0 then buf2 @ FormatFlag wr d (Flag e) flagColor
                      else buf2 @ FormatFlag wr d (Flag e) (GetFlagTextColor d (Flag e))
                  | None \<Rightarrow> buf2 @ FormatFlag wr d (Flag e) (GetFlagTextColor d (Flag e)));
          buf4 = buf3 @ [RuneSpace];
          buf5 = (case WriteText e of
                    Some wt \<Rightarrow> wt wr buf4
                  | None \<Rightarrow> (case Stringer e of Some s \<Rightarrow> buf4 @ s | None \<Rightarrow> buf4));
          buf6 = buf5 @ [RuneNewline]
      in (buf6, output buf6))"

section \<open>Examples\<close>

text \<open>
  A listener that panics on the event \<open>1\<close> and returns on every other, in a running
  worker with a parent and that event queued; a running worker with two events
  queued; a writer with an empty label and no colour, an event that is a
  \<open>Stringer\<close>, and stand-ins for the colours and the clock.
\<close>

definition faulty :: "nat \<Rightarrow> unit \<Rightarrow> string exit \<times> unit" where
  "faulty e s = (if e = 1 then (Panicked ''boom'', s) else (Returned, s))"

definition faulty_worker :: "(nat, string, unit) Worker" where
  "faulty_worker = (NewWorker (Some []) faulty ())\<lparr>Work := [1], IsRunning := True\<rparr>"

definition busy_worker :: "(nat, string, unit) Worker" where
  "busy_worker = (NewWorker None (\<lambda>e s. (Returned, s)) ())\<lparr>Work := [1, 2], IsRunning := True\<rparr>"

definition plain_writer :: TextWriter where
  "plain_writer = \<lparr>showTimestamp = True, showLabel = True, useColor = False,
     timeFormat = ''15:04'', label = []\<rparr>"

definition ping :: "nat Event" where
  "ping = \<lparr>Flag = ''ping'', Timestamp = 7, FlagTextColor = None, WriteText = None,
     Stringer = Some ''ok''\<rparr>"

definition stub_deps :: "nat deps" where
  "stub_deps = \<lparr>Apply = (\<lambda>c v. c @ v), GetFlagTextColor = (\<lambda>f. ''34''),
     Format = (\<lambda>t f. ''T'' @ f), NowUTC = 0, ColorBlue = ''94'', ColorGray = ''90''\<rparr>"

section \<open>Properties of flag sets\<close>

lemma IsEnabled_lookup:
  "IsEnabled s f = (if all s then lookup (flags s) f \<noteq> Some False
                    else if none s then False else lookup (flags s) f = Some True)"
  by (auto simp: IsEnabled_def lookup_def split: option.splits)

subsection \<open>Splitting, joining, trimming\<close>

lemma Split_no_sep: "sep \<notin> set t \<Longrightarrow> Split t sep = [t]"
  by (induction t) auto

lemma Split_append: "sep \<notin> set t \<Longrightarrow> Split (t @ sep # r) sep = t # Split r sep"
  by (induction t) auto

lemma Split_Join_aux:
  "CHR '','' \<notin> set p \<Longrightarrow> \<forall>t\<in>set (t0 # ts). CHR '','' \<notin> set t \<Longrightarrow>
   Split (p @ Join (t0 # ts) '', '') (CHR '','') = (p @ t0) # map ((#) CHR '' '') ts"
proof (induction ts arbitrary: p t0)
  case Nil
  then show ?case by (simp add: Split_no_sep)
next
  case (Cons t1 ts)
  have "Split (p @ Join (t0 # t1 # ts) '', '') (CHR '','')
        = Split ((p @ t0) @ CHR '','' # ([CHR '' ''] @ Join (t1 # ts) '', '')) (CHR '','')"
    by simp
  also have "\<dots> = (p @ t0) # Split ([CHR '' ''] @ Join (t1 # ts) '', '') (CHR '','')"
    using Cons.prems by (intro Split_append) auto
  also have "Split ([CHR '' ''] @ Join (t1 # ts) '', '') (CHR '','')
        = ([CHR '' ''] @ t1) # map ((#) CHR '' '') ts"
    using Cons.prems by (intro Cons.IH) auto
  finally show ?case by simp
qed

lemma Split_Join:
  "\<forall>t\<in>set (t0 # ts). CHR '','' \<notin> set t \<Longrightarrow>
   Split (Join (t0 # ts) '', '') (CHR '','') = t0 # map ((#) CHR '' '') ts"
  using Split_Join_aux [of "[]" t0 ts] by simp

lemma lower_char_not_upper: "\<not> is_upper (lower_char c)"
  by (auto simp: lower_char_def is_upper_def)

lemma ToLower_no_upper: "c \<in> set (ToLower t) \<Longrightarrow> \<not> is_upper c"
  by (auto simp: ToLower_def lower_char_not_upper)

lemma set_Trim: "set (Trim s cs) \<subseteq> set s"
  by (auto simp: Trim_def TrimLeft_def TrimRight_def dest!: set_dropWhileD)

lemma Trim_space: "Trim (CHR '' '' # t) cutset = Trim t cutset"
  by (simp add: Trim_def TrimLeft_def cutset_def)

lemma ToLower_space: "ToLower (CHR '' '' # t) = CHR '' '' # ToLower t"
  by (simp add: ToLower_def lower_char_def is_upper_def)

lemma parsed_space: "parsed (CHR '' '' # t) = parsed t"
  by (simp add: parsed_def ToLower_space Trim_space)

lemma dropWhile_same_length: "length (dropWhile P xs) = length xs \<Longrightarrow> dropWhile P xs = xs"
  by (metis append_self_conv2 length_0_conv length_append add_cancel_right_left takeWhile_dropWhile_id add.commute)

lemma Trim_fixed:
  assumes "Trim k cs = k"
  shows "TrimLeft k cs = k" and "TrimRight k cs = k"
proof -
  have "length k = length (TrimRight (TrimLeft k cs) cs)" using assms by (simp add: Trim_def)
  also have "\<dots> \<le> length (TrimLeft k cs)"
    using length_dropWhile_le [of "\<lambda>c. c \<in> set cs" "rev (TrimLeft k cs)"] by (simp add: TrimRight_def)
  finally have "length (TrimLeft k cs) = length k"
    using length_dropWhile_le [of "\<lambda>c. c \<in> set cs" k] by (simp add: TrimLeft_def)
  then show l: "TrimLeft k cs = k" by (simp add: TrimLeft_def dropWhile_same_length)
  with assms show "TrimRight k cs = k" by (simp add: Trim_def)
qed

lemma Trim_dash:
  assumes "Trim k cutset = k"
  shows "Trim (''-'' @ k) cutset = ''-'' @ k"
proof (cases "k = []")
  case True
  then show ?thesis by (simp add: Trim_def TrimLeft_def TrimRight_def cutset_def)
next
  case False
  from Trim_fixed(2) [OF assms] have "dropWhile (\<lambda>c. c \<in> set cutset) (rev k) = rev k"
    by (simp add: TrimRight_def rev_swap)
  with False have "\<not> (hd (rev k) \<in> set cutset)" by (simp add: dropWhile_eq_self_iff)
  with False have "dropWhile (\<lambda>c. c \<in> set cutset) (rev k @ ''-'') = rev k @ ''-''"
    by (cases "rev k") auto
  then show ?thesis by (simp add: Trim_def TrimLeft_def TrimRight_def cutset_def)
qed

lemma HasPrefix_dash: "HasPrefix s ''-'' = (\<exists>r. s = CHR ''-'' # r)"
  by (cases s) auto

lemma parsed_plain: "plain_flag k \<Longrightarrow> parsed k = k"
  by (simp add: plain_flag_def parsed_def)

lemma parsed_dash: "plain_flag k \<Longrightarrow> parsed (CHR ''-'' # k) = CHR ''-'' # k"
  using Trim_dash [of k] by (simp add: plain_flag_def parsed_def ToLower_def lower_char_def is_upper_def)

lemma parsed_all: "parsed FlagAll = FlagAll"
  by (simp add: parsed_def FlagAll_def ToLower_def lower_char_def is_upper_def Trim_def TrimLeft_def TrimRight_def cutset_def)


subsection \<open>The loop of the parser\<close>

lemma csv_step_parsed:
  "csv_step (m, a, n) t =
     (m(token_key (parsed t) \<mapsto> token_val (parsed t)), a \<or> parsed t = FlagAll, n \<or> parsed t = FlagNone)"
  by (auto simp: csv_step_def parsed_def token_key_def token_val_def TrimPrefix_def Let_def)

lemma csv_fold_all:
  "fst (snd (foldl csv_step (m, a, n) ts)) = (a \<or> (\<exists>t\<in>set ts. parsed t = FlagAll))"
  by (induction ts arbitrary: m a n) (auto simp: csv_step_parsed)

lemma csv_fold_none:
  "snd (snd (foldl csv_step (m, a, n) ts)) = (n \<or> (\<exists>t\<in>set ts. parsed t = FlagNone))"
  by (induction ts arbitrary: m a n) (auto simp: csv_step_parsed)

lemma csv_fold_unchanged:
  "\<forall>t\<in>set ts. token_key (parsed t) \<noteq> f \<Longrightarrow> fst (foldl csv_step (m, a, n) ts) f = m f"
  by (induction ts arbitrary: m a n) (auto simp: csv_step_parsed)

lemma csv_fold_from:
  "fst (foldl csv_step (m, a, n) ts) f = Some v \<Longrightarrow>
   m f = Some v \<or> (\<exists>t\<in>set ts. token_key (parsed t) = f \<and> token_val (parsed t) = v)"
proof (induction ts arbitrary: m a n)
  case Nil
  then show ?case by simp
next
  case (Cons t ts)
  from Cons.prems have "fst (foldl csv_step (m(token_key (parsed t) \<mapsto> token_val (parsed t)),
      a \<or> parsed t = FlagAll, n \<or> parsed t = FlagNone) ts) f = Some v"
    by (simp add: csv_step_parsed)
  from Cons.IH [OF this] show ?case by (auto split: if_splits)
qed

lemma csv_fold_set:
  "\<exists>t\<in>set ts. token_key (parsed t) = f \<Longrightarrow>
   \<forall>t\<in>set ts. token_key (parsed t) = f \<longrightarrow> token_val (parsed t) = v \<Longrightarrow>
   fst (foldl csv_step (m, a, n) ts) f = Some v"
proof (induction ts arbitrary: m a n)
  case Nil
  then show ?case by simp
next
  case (Cons t ts)
  show ?case
  proof (cases "\<exists>t\<in>set ts. token_key (parsed t) = f")
    case True
    from Cons.IH [OF True] Cons.prems(2) show ?thesis by (simp add: csv_step_parsed)
  next
    case False
    with Cons.prems have "token_key (parsed t) = f" "token_val (parsed t) = v" by auto
    with False show ?thesis by (simp add: csv_step_parsed csv_fold_unchanged)
  qed
qed

lemma csv_flags: "flags (NewFlagSetFromCSV csv) = Some (fst (foldl csv_step (Map.empty, False, False) (Split csv (CHR '',''))))"
  and csv_all: "all (NewFlagSetFromCSV csv) = (\<exists>t\<in>set (Split csv (CHR '','')). parsed t = FlagAll)"
  and csv_none: "none (NewFlagSetFromCSV csv) = (\<exists>t\<in>set (Split csv (CHR '','')). parsed t = FlagNone)"
  using csv_fold_all [of Map.empty False False "Split csv (CHR '','')"]
    csv_fold_none [of Map.empty False False "Split csv (CHR '','')"]
  by (auto simp: NewFlagSetFromCSV_def split: prod.splits)

subsection \<open>The tokens of the printer\<close>

lemma String_step_acc: "String_step efs acc k = acc @ String_step efs [] k"
  by (simp add: String_step_def split: option.splits)

lemma String_fold: "foldl (String_step efs) acc ks = acc @ concat (map (String_step efs []) ks)"
proof (induction ks arbitrary: acc)
  case Nil
  then show ?case by simp
next
  case (Cons k ks)
  show ?case using Cons.IH [of "String_step efs acc k"] String_step_acc [of efs acc k] by simp
qed

lemma String_step_mem:
  "t \<in> set (String_step efs [] k) \<longleftrightarrow>
     k \<noteq> FlagAll \<and> ((lookup (flags efs) k = Some False \<and> t = ''-'' @ k)
        \<or> (\<not> all efs \<and> lookup (flags efs) k = Some True \<and> t = k))"
proof (cases "lookup (flags efs) k")
  case None
  then show ?thesis by (simp add: String_step_def)
next
  case (Some b)
  then show ?thesis by (cases b; simp add: String_step_def; blast)
qed

lemma String_tokens_set:
  assumes "range_order (flags efs) ks"
  shows "t \<in> set (String_tokens efs ks) \<longleftrightarrow>
           (all efs \<and> t = FlagAll)
         \<or> (\<exists>k. k \<noteq> FlagAll \<and> lookup (flags efs) k = Some False \<and> t = ''-'' @ k)
         \<or> (\<not> all efs \<and> (\<exists>k. k \<noteq> FlagAll \<and> lookup (flags efs) k = Some True \<and> t = k))"
proof -
  have mem: "k \<in> set ks" if "lookup (flags efs) k = Some b" for k b
    using assms that by (cases "flags efs") (auto simp: range_order_def lookup_def)
  have "t \<in> set (concat (map (String_step efs []) ks)) \<longleftrightarrow>
          (\<exists>k\<in>set ks. t \<in> set (String_step efs [] k))"
    by auto
  also have "\<dots> \<longleftrightarrow> (\<exists>k. t \<in> set (String_step efs [] k))"
    using mem by (auto simp: String_step_mem)
  also have "\<dots> \<longleftrightarrow>
          (\<exists>k. k \<noteq> FlagAll \<and> lookup (flags efs) k = Some False \<and> t = ''-'' @ k)
        \<or> (\<not> all efs \<and> (\<exists>k. k \<noteq> FlagAll \<and> lookup (flags efs) k = Some True \<and> t = k))"
    unfolding String_step_mem by blast
  finally have body: "t \<in> set (concat (map (String_step efs []) ks)) \<longleftrightarrow>
          (\<exists>k. k \<noteq> FlagAll \<and> lookup (flags efs) k = Some False \<and> t = ''-'' @ k)
        \<or> (\<not> all efs \<and> (\<exists>k. k \<noteq> FlagAll \<and> lookup (flags efs) k = Some True \<and> t = k))" .
  show ?thesis
  proof (cases "all efs")
    case True
    then show ?thesis using body by (simp add: String_tokens_def String_fold)
  next
    case False
    then show ?thesis using body by (simp add: String_tokens_def String_fold)
  qed
qed

subsection \<open>Printing, then parsing\<close>

lemma csv_all_image: "all (NewFlagSetFromCSV c) = (FlagAll \<in> parsed ` set (Split c (CHR '','')))"
  and csv_none_image: "none (NewFlagSetFromCSV c) = (FlagNone \<in> parsed ` set (Split c (CHR '','')))"
  unfolding csv_all csv_none image_iff by (rule bex_cong [OF refl], rule eq_commute)+

lemma csv_lookup_from:
  "lookup (flags (NewFlagSetFromCSV c)) f = Some v \<Longrightarrow>
   \<exists>p\<in>parsed ` set (Split c (CHR '','')). token_key p = f \<and> token_val p = v"
  using csv_fold_from [of Map.empty False False "Split c (CHR '','')" f v]
  by (auto simp: csv_flags lookup_def)

lemma csv_lookup_set:
  "\<exists>p\<in>parsed ` set (Split c (CHR '','')). token_key p = f \<Longrightarrow>
   \<forall>p\<in>parsed ` set (Split c (CHR '','')). token_key p = f \<longrightarrow> token_val p = v \<Longrightarrow>
   lookup (flags (NewFlagSetFromCSV c)) f = Some v"
  using csv_fold_set [of "Split c (CHR '','')" f v Map.empty False False]
  by (auto simp: csv_flags lookup_def)

lemma token_plain: "plain_flag k \<Longrightarrow> token_key k = k \<and> token_val k"
  by (simp add: plain_flag_def token_key_def token_val_def TrimPrefix_def)

lemma token_dash: "token_key (CHR ''-'' # k) = k \<and> \<not> token_val (CHR ''-'' # k)"
  by (simp add: token_key_def token_val_def TrimPrefix_def)

lemma token_all: "token_key FlagAll = FlagAll \<and> token_val FlagAll"
  by (simp add: token_key_def token_val_def TrimPrefix_def FlagAll_def)

lemma parsed_image:
  assumes "\<forall>t\<in>set (t0 # ts). parsed t = t"
  shows "parsed ` set (t0 # map ((#) CHR '' '') ts) = set (t0 # ts)"
  using assms by (auto simp: parsed_space image_iff)

lemma tokens_roundtrip:
  assumes ro: "range_order (flags s) ks" and pl: "list_all (\<lambda>k. k = FlagAll \<or> plain_flag k) ks"
    and ne: "all s \<or> list_ex (\<lambda>k. k \<noteq> FlagAll) ks"
  shows "parsed ` set (Split (Join (String_tokens s ks) '', '') (CHR '','')) = set (String_tokens s ks)"
proof -
  have mem: "\<And>k. (k \<in> set ks) = (lookup (flags s) k \<noteq> None)"
    using ro by (cases "flags s") (auto simp: range_order_def lookup_def list_all_iff)
  have plain: "\<And>k b. lookup (flags s) k = Some b \<Longrightarrow> k \<noteq> FlagAll \<Longrightarrow> plain_flag k"
    using pl mem by (auto simp: list_all_iff)
  have clean: "parsed t = t \<and> CHR '','' \<notin> set t" if "t \<in> set (String_tokens s ks)" for t
  proof -
    from that consider "t = FlagAll"
      | k where "k \<noteq> FlagAll" "lookup (flags s) k = Some False" "t = CHR ''-'' # k"
      | "t \<noteq> FlagAll" "lookup (flags s) t = Some True"
      unfolding String_tokens_set [OF ro] by auto
    then show ?thesis
    proof cases
      case 1
      then show ?thesis by (simp add: parsed_all) (simp add: FlagAll_def)
    next
      case 2
      from plain [OF 2(2,1)] have "plain_flag k" .
      then show ?thesis using 2(3) by (simp add: parsed_dash) (simp add: plain_flag_def)
    next
      case 3
      from plain [OF 3(2,1)] have "plain_flag t" .
      then show ?thesis by (simp add: parsed_plain) (simp add: plain_flag_def)
    qed
  qed
  have "String_tokens s ks \<noteq> []"
  proof (cases "all s")
    case True
    then have "FlagAll \<in> set (String_tokens s ks)" by (simp add: String_tokens_set [OF ro])
    then show ?thesis by auto
  next
    case False
    with ne obtain k where k: "k \<in> set ks" "k \<noteq> FlagAll" by (auto simp: list_ex_iff)
    then obtain b where b: "lookup (flags s) k = Some b" by (auto simp: mem)
    with k b False have "(if b then k else CHR ''-'' # k) \<in> set (String_tokens s ks)"
      by (cases b) (simp_all add: String_tokens_set [OF ro])
    then show ?thesis by auto
  qed
  then obtain t0 ts where ts: "String_tokens s ks = t0 # ts" by (cases "String_tokens s ks") auto
  have "Split (Join (t0 # ts) '', '') (CHR '','') = t0 # map ((#) CHR '' '') ts"
    using clean ts by (intro Split_Join) auto
  moreover have "parsed ` set (t0 # map ((#) CHR '' '') ts) = set (t0 # ts)"
    using clean ts by (intro parsed_image) auto
  ultimately show ?thesis by (simp add: ts)
qed

lemma csv_none_literal:
  "all (NewFlagSetFromCSV FlagNone) = False \<and> none (NewFlagSetFromCSV FlagNone) = True"
  by (simp add: NewFlagSetFromCSV_def FlagNone_def FlagAll_def csv_step_def Trim_def TrimLeft_def
      TrimRight_def cutset_def ToLower_def lower_char_def is_upper_def)

lemma tokens_cases:
  assumes "range_order (flags s) ks" and "t \<in> set (String_tokens s ks)"
  obtains "all s" "t = FlagAll"
    | k where "k \<noteq> FlagAll" "lookup (flags s) k = Some False" "t = CHR ''-'' # k"
    | "\<not> all s" "t \<noteq> FlagAll" "lookup (flags s) t = Some True"
  using assms(2) unfolding String_tokens_set [OF assms(1)] by auto

subsection \<open>Merging\<close>

lemma assign_all_lookup:
  "assign_all fm src ks = Inr fm' \<Longrightarrow>
   lookup fm' f = (if f \<in> set ks \<and> lookup src f \<noteq> None then lookup src f else lookup fm f)"
proof (induction ks arbitrary: fm)
  case Nil
  then show ?case by simp
next
  case (Cons k ks)
  show ?case
  proof (cases "lookup src k")
    case None
    with Cons show ?thesis by auto
  next
    case (Some v)
    with Cons.prems obtain m where fm: "fm = Some m"
      and rest: "assign_all (Some (m(k \<mapsto> v))) src ks = Inr fm'"
      by (auto simp: assign_def split: option.splits)
    from Cons.IH [OF rest] Some fm show ?thesis
      by (auto simp: lookup_def)
  qed
qed

lemma assign_all_returns:
  "fm \<noteq> None \<Longrightarrow> \<exists>m. assign_all fm src ks = Inr (Some m)"
proof (induction ks arbitrary: fm)
  case Nil
  then show ?case by auto
next
  case (Cons k ks)
  then obtain m where fm: "fm = Some m" by auto
  show ?case
  proof (cases "lookup src k")
    case None
    with Cons show ?thesis by simp
  next
    case (Some v)
    have "\<exists>m'. assign_all (Some (m(k \<mapsto> v))) src ks = Inr (Some m')"
      by (rule Cons.IH) simp
    with Some fm show ?thesis by (simp add: assign_def)
  qed
qed

lemma CoalesceWith_bits:
  assumes "CoalesceWith self other ks = Inr merged"
  shows "all merged = (all self \<or> all other)" and "none merged = (none self \<or> none other)"
    and "assign_all (flags self) (flags other) ks = Inr (flags merged)"
  using assms by (auto simp: CoalesceWith_def Let_def split: sum.splits if_splits)

lemma range_order_mem: "range_order fm ks \<Longrightarrow> (f \<in> set ks) = (lookup fm f \<noteq> None)"
  by (cases fm) (auto simp: range_order_def lookup_def list_all_iff)

subsection \<open>A single token\<close>

lemma csv_single:
  assumes "CHR '','' \<notin> set t"
  shows "NewFlagSetFromCSV t =
     \<lparr>flags = Some [token_key (parsed t) \<mapsto> token_val (parsed t)],
      all = (parsed t = FlagAll), none = (parsed t = FlagNone)\<rparr>"
  using assms by (simp add: NewFlagSetFromCSV_def Split_no_sep csv_step_parsed)

lemma parsed_no_upper: "c \<in> set (parsed t) \<Longrightarrow> \<not> is_upper c"
  using set_Trim [of "ToLower t" cutset] ToLower_no_upper [of c t]
  by (auto simp: parsed_def)

lemma token_key_subset: "set (token_key p) \<subseteq> set p"
  by (auto simp: token_key_def TrimPrefix_def dest: in_set_dropD)

section \<open>Properties of the worker\<close>

lemma Process_exit: "fst (Process th w e) = Returned"
  by (simp add: Process_def recover_def Let_def split: prod.splits exit.splits option.splits)

lemma Process_fields:
  "Work (snd (Process th w e)) = Work w"
  "IsRunning (snd (Process th w e)) = IsRunning w"
  "Listener (snd (Process th w e)) = Listener w"
  "calls (snd (Process th w e)) = calls w @ [(th, e)]"
  "lstate (snd (Process th w e)) = snd (Listener w e (lstate w))"
  by (simp_all add: Process_def recover_def Let_def split: prod.splits exit.splits option.splits)

lemma Process_Parent:
  "Parent (snd (Process th w e)) =
     (case fst (Listener w e (lstate w)) of
        Returned \<Rightarrow> Parent w
      | Panicked v \<Rightarrow> (case Parent w of None \<Rightarrow> None | Some p \<Rightarrow> Some (SyncFatalf p v)))"
  by (simp add: Process_def recover_def Let_def split: prod.splits exit.splits option.splits)

lemma Process_result:
  "\<exists>w1. Process th w e = (Returned, w1) \<and> Work w1 = Work w \<and> IsRunning w1 = IsRunning w
     \<and> Listener w1 = Listener w \<and> calls w1 = calls w @ [(th, e)]"
  using Process_exit [of th w e] Process_fields [of th w e]
  by (cases "Process th w e") simp

lemma loop_work:
  "IsRunning w \<Longrightarrow> Work w = q \<Longrightarrow>
   \<exists>w'. loop (replicate (length q) WorkCase) w = (Waiting, w') \<and> IsRunning w' \<and> Work w' = []
      \<and> Listener w' = Listener w
      \<and> calls w' = calls w @ map (Pair LoopThread) q"
proof (induction q arbitrary: w)
  case Nil
  then show ?case by simp
next
  case (Cons e q)
  from Process_result [of LoopThread "w\<lparr>Work := q\<rparr>" e] obtain w1 where
    w1: "Process LoopThread (w\<lparr>Work := q\<rparr>) e = (Returned, w1)" "Work w1 = q"
      "IsRunning w1 = IsRunning w" "Listener w1 = Listener w" "calls w1 = calls w @ [(LoopThread, e)]"
    by auto
  have run: "IsRunning w1" using Cons.prems w1 by simp
  from Cons.IH [OF run w1(2)] obtain w' where
    w': "loop (replicate (length q) WorkCase) w1 = (Waiting, w')" "IsRunning w'" "Work w' = []"
      "Listener w' = Listener w1" "calls w' = calls w1 @ map (Pair LoopThread) q"
    by blast
  have "loop (replicate (length (e # q)) WorkCase) w = loop (replicate (length q) WorkCase) w1"
    using Cons.prems w1(1) by simp
  with w' w1 show ?case by simp
qed

lemma loop_stop:
  "IsRunning w \<Longrightarrow> k \<le> length (Work w) \<Longrightarrow>
   \<exists>w'. loop (replicate k WorkCase @ [AbortCase]) w = (Exited, w') \<and> \<not> IsRunning w'
      \<and> Work w' = drop k (Work w) \<and> Listener w' = Listener w
      \<and> calls w' = calls w @ map (Pair LoopThread) (take k (Work w))"
proof (induction k arbitrary: w)
  case 0
  then show ?case by simp
next
  case (Suc k)
  then obtain e q where eq: "Work w = e # q" by (cases "Work w") auto
  from Process_result [of LoopThread "w\<lparr>Work := q\<rparr>" e] obtain w1 where
    w1: "Process LoopThread (w\<lparr>Work := q\<rparr>) e = (Returned, w1)" "Work w1 = q"
      "IsRunning w1 = IsRunning w" "Listener w1 = Listener w" "calls w1 = calls w @ [(LoopThread, e)]"
    by auto
  have run: "IsRunning w1" and wk: "k \<le> length (Work w1)"
    using Suc.prems eq w1 by simp_all
  from Suc.IH [OF run wk] obtain w' where
    w': "loop (replicate k WorkCase @ [AbortCase]) w1 = (Exited, w')" "\<not> IsRunning w'"
      "Work w' = drop k (Work w1)" "Listener w' = Listener w1"
      "calls w' = calls w1 @ map (Pair LoopThread) (take k (Work w1))"
    by blast
  have "loop (replicate (Suc k) WorkCase @ [AbortCase]) w = loop (replicate k WorkCase @ [AbortCase]) w1"
    using Suc.prems eq w1(1) by simp
  with w' w1 eq show ?case by simp
qed

lemma drain_loop_all:
  "Work w = q \<Longrightarrow>
   \<exists>w'. drain_loop w = Inr w' \<and> Work w' = [] \<and> IsRunning w' = IsRunning w
      \<and> Listener w' = Listener w
      \<and> calls w' = calls w @ map (Pair CallerThread) q"
proof (induction q arbitrary: w)
  case Nil
  then show ?case by simp
next
  case (Cons e q)
  from Process_result [of CallerThread "w\<lparr>Work := q\<rparr>" e] obtain w1 where
    w1: "Process CallerThread (w\<lparr>Work := q\<rparr>) e = (Returned, w1)" "Work w1 = q"
      "IsRunning w1 = IsRunning w" "Listener w1 = Listener w" "calls w1 = calls w @ [(CallerThread, e)]"
    by auto
  from Cons.IH [OF w1(2)] obtain w' where
    w': "drain_loop w1 = Inr w'" "Work w' = []" "IsRunning w' = IsRunning w1"
      "Listener w' = Listener w1" "calls w' = calls w1 @ map (Pair CallerThread) q"
    by blast
  have "drain_loop w = drain_loop w1"
    using Cons.prems w1(1) by (subst drain_loop.simps) simp
  with w' w1 show ?case by simp
qed

lemma Stop_effect:
  "\<exists>w'. Stop n w = Inr w' \<and> \<not> IsRunning w' \<and> Listener w' = Listener w
     \<and> Work w' = drop (if IsRunning w then min n (length (Work w)) else 0) (Work w)
     \<and> calls w' = calls w @ map (Pair LoopThread)
          (take (if IsRunning w then min n (length (Work w)) else 0) (Work w))"
proof (cases "IsRunning w")
  case False
  then show ?thesis by (simp add: Stop_def)
next
  case True
  from loop_stop [OF True, of "min n (length (Work w))"] obtain w' where
    "loop (replicate (min n (length (Work w))) WorkCase @ [AbortCase]) w = (Exited, w')"
    "\<not> IsRunning w'" "Work w' = drop (min n (length (Work w))) (Work w)" "Listener w' = Listener w"
    "calls w' = calls w @ map (Pair LoopThread) (take (min n (length (Work w))) (Work w))"
    by auto
  with True show ?thesis by (simp add: Stop_def)
qed

lemmas csv_eval = NewFlagSetFromCSV_def csv_step_def Trim_def TrimLeft_def TrimRight_def
  cutset_def ToLower_def lower_char_def is_upper_def FlagAll_def FlagNone_def TrimPrefix_def

lemma csv_all_error:
  "NewFlagSetFromCSV ''all,-error'' =
     \<lparr>flags = Some [''all'' \<mapsto> True, ''error'' \<mapsto> False], all = True, none = False\<rparr>"
  by (simp add: csv_eval)

lemma csv_x: "NewFlagSetFromCSV ''x'' = \<lparr>flags = Some [''x'' \<mapsto> True], all = False, none = False\<rparr>"
  by (simp add: csv_eval)

section \<open>The claims about flag sets\<close>

text \<open>
  C1, as the code has it. \<open>IsEnabled\<close> looks at the all bit first. On a set whose none
  bit is set, the answer is false for every flag when the all bit is unset; when
  the all bit is set too, the answer is false only for a flag with an explicit
  disabled entry and true for every other flag.
\<close>

theorem none_bit_verdict:
  "none s \<Longrightarrow> IsEnabled s f = (all s \<and> lookup (flags s) f \<noteq> Some False)"
  by (simp add: IsEnabled_lookup)

theorem none_bit_verdict_witness:
  "none NewFlagSetNone \<and> IsEnabled NewFlagSetNone ''error'' = False"
  using none_bit_verdict [of NewFlagSetNone "''error''"]
  by (simp add: NewFlagSetNone_def)

text \<open>
  C1 as stated fails on the set parsed from \<open>all,none\<close>: both bits are set and the
  flag \<open>info\<close> is enabled.
\<close>

theorem all_and_none_counterexample:
  "all (NewFlagSetFromCSV ''all,none'') \<and> none (NewFlagSetFromCSV ''all,none'')
   \<and> IsEnabled (NewFlagSetFromCSV ''all,none'') ''info''"
  by code_simp

text \<open>
  C2, as the code has it. \<open>CoalesceWith\<close> returns when the receiver's map is
  allocated. It is right-biased on the entries: a flag with an entry in \<open>other\<close>
  gets that entry, any other flag keeps the receiver's. The bits are only ever set:
  each bit of the result is set when it is set in either operand. So for a flag with
  an entry in \<open>other\<close> the verdict of the result is that of \<open>other\<close> provided the
  receiver has no bit set that \<open>other\<close> lacks, and for a flag without an entry in
  \<open>other\<close> it is that of the receiver provided \<open>other\<close> has no bit set that the
  receiver lacks.
\<close>

theorem CoalesceWith_right_biased:
  assumes "range_order (flags other) ks"
  shows "(flags self \<noteq> None \<longrightarrow> \<not> isl (CoalesceWith self other ks))
     \<and> (\<forall>merged. CoalesceWith self other ks = Inr merged \<longrightarrow>
          lookup (flags merged) f =
            (case lookup (flags other) f of Some v \<Rightarrow> Some v | None \<Rightarrow> lookup (flags self) f)
          \<and> all merged = (all self \<or> all other)
          \<and> none merged = (none self \<or> none other)
          \<and> (lookup (flags other) f \<noteq> None \<and> (all self \<longrightarrow> all other) \<and> (none self \<longrightarrow> none other)
               \<longrightarrow> IsEnabled merged f = IsEnabled other f)
          \<and> (lookup (flags other) f = None \<and> (all other \<longrightarrow> all self) \<and> (none other \<longrightarrow> none self)
               \<longrightarrow> IsEnabled merged f = IsEnabled self f))"
proof (intro conjI allI impI)
  assume "flags self \<noteq> None"
  then show "\<not> isl (CoalesceWith self other ks)"
    using assign_all_returns [of "flags self" "flags other" ks]
    by (auto simp: CoalesceWith_def Let_def)
next
  fix merged assume c: "CoalesceWith self other ks = Inr merged"
  note b = CoalesceWith_bits [OF c]
  show l: "lookup (flags merged) f =
      (case lookup (flags other) f of Some v \<Rightarrow> Some v | None \<Rightarrow> lookup (flags self) f)"
    using assign_all_lookup [OF b(3), of f] range_order_mem [OF assms, of f]
    by (auto split: option.splits)
  show "all merged = (all self \<or> all other)" by (rule b(1))
  show "none merged = (none self \<or> none other)" by (rule b(2))
  show "IsEnabled merged f = IsEnabled other f"
    if "lookup (flags other) f \<noteq> None \<and> (all self \<longrightarrow> all other) \<and> (none self \<longrightarrow> none other)"
    using that l b(1,2) by (auto simp: IsEnabled_lookup)
  show "IsEnabled merged f = IsEnabled self f"
    if "lookup (flags other) f = None \<and> (all other \<longrightarrow> all self) \<and> (none other \<longrightarrow> none self)"
    using that l b(1,2) by (auto simp: IsEnabled_lookup)
qed

theorem CoalesceWith_right_biased_witness:
  "range_order (flags (NewFlagSetFromCSV ''x'')) [''x'']
   \<and> \<not> isl (CoalesceWith (NewFlagSetFromCSV ''all,-error'') (NewFlagSetFromCSV ''x'') [''x''])
   \<and> IsEnabled (projr (CoalesceWith (NewFlagSetFromCSV ''all,-error'') (NewFlagSetFromCSV ''x'') [''x''])) ''error''
     = IsEnabled (NewFlagSetFromCSV ''all,-error'') ''error''"
proof -
  let ?self = "NewFlagSetFromCSV ''all,-error''" and ?other = "NewFlagSetFromCSV ''x''"
  have ro: "range_order (flags ?other) [''x'']"
    by (auto simp: csv_x range_order_def lookup_def)
  have al: "flags ?self \<noteq> None" by (simp add: csv_all_error)
  note t = CoalesceWith_right_biased [OF ro, of ?self "''error''"]
  from t al have r: "\<not> isl (CoalesceWith ?self ?other [''x''])" by blast
  then obtain merged where m: "CoalesceWith ?self ?other [''x''] = Inr merged"
    by (cases "CoalesceWith ?self ?other [''x'']") auto
  have h: "lookup (flags ?other) ''error'' = None \<and> (all ?other \<longrightarrow> all ?self) \<and> (none ?other \<longrightarrow> none ?self)"
    by (simp add: csv_x lookup_def)
  from t m h have "IsEnabled merged ''error'' = IsEnabled ?self ''error''" by blast
  with ro r m show ?thesis by simp
qed

text \<open>
  C2 as stated fails in both halves. Merging the set parsed from \<open>x\<close> into
  \<open>NewFlagSetNone\<close> leaves \<open>x\<close> disabled, though \<open>other\<close> has it enabled: the none
  bit of the receiver stays. Merging \<open>NewFlagSetAll\<close> into the set parsed from \<open>x\<close>
  enables \<open>y\<close>, which has no entry in \<open>other\<close> and was disabled in the receiver.
\<close>

theorem CoalesceWith_bits_counterexample:
  "range_order (flags (NewFlagSetFromCSV ''x'')) [''x'']
   \<and> lookup (flags (NewFlagSetFromCSV ''x'')) ''x'' = Some True
   \<and> IsEnabled (NewFlagSetFromCSV ''x'') ''x''
   \<and> \<not> isl (CoalesceWith NewFlagSetNone (NewFlagSetFromCSV ''x'') [''x''])
   \<and> \<not> IsEnabled (projr (CoalesceWith NewFlagSetNone (NewFlagSetFromCSV ''x'') [''x''])) ''x''
   \<and> range_order (flags NewFlagSetAll) []
   \<and> lookup (flags NewFlagSetAll) ''y'' = None
   \<and> \<not> IsEnabled (NewFlagSetFromCSV ''x'') ''y''
   \<and> \<not> isl (CoalesceWith (NewFlagSetFromCSV ''x'') NewFlagSetAll [])
   \<and> IsEnabled (projr (CoalesceWith (NewFlagSetFromCSV ''x'') NewFlagSetAll [])) ''y''"
  by (auto simp: csv_x NewFlagSetNone_def NewFlagSetAll_def range_order_def lookup_def assign_def
      CoalesceWith_def IsEnabled_lookup)

text \<open>
  C3, as the code has it. Let a set not have both bits set. If its none bit is set,
  parsing what \<open>String\<close> prints gives the same verdict for every flag. Otherwise it
  does so, for every order \<open>ks\<close> in which the loop of \<open>String\<close> visits the map,
  provided every key other than \<open>all\<close> is a plain flag, an entry for \<open>all\<close>, if
  there is one, has the value of the all bit, and \<open>String\<close> prints at least one token
  (the all bit is set or the map has a key other than \<open>all\<close>).
\<close>

theorem String_roundtrip:
  assumes both: "\<not> (all s \<and> none s)"
    and printable: "none s \<or> (range_order (flags s) ks
          \<and> list_all (\<lambda>k. k = FlagAll \<or> plain_flag k) ks
          \<and> lookup (flags s) FlagAll \<noteq> Some (\<not> all s)
          \<and> (all s \<or> list_ex (\<lambda>k. k \<noteq> FlagAll) ks))"
  shows "IsEnabled (NewFlagSetFromCSV (String s ks)) f = IsEnabled s f"
proof (cases "none s")
  case True
  with both show ?thesis by (simp add: String_def IsEnabled_lookup csv_none_literal)
next
  case False
  with printable have ro: "range_order (flags s) ks"
    and pl: "list_all (\<lambda>k. k = FlagAll \<or> plain_flag k) ks"
    and agree: "lookup (flags s) FlagAll \<noteq> Some (\<not> all s)"
    and ne: "all s \<or> list_ex (\<lambda>k. k \<noteq> FlagAll) ks"
    by auto
  let ?c = "Join (String_tokens s ks) '', ''"
  let ?P = "parsed ` set (Split ?c (CHR '',''))"
  have mem: "\<And>k. (k \<in> set ks) = (lookup (flags s) k \<noteq> None)"
    using ro by (cases "flags s") (auto simp: range_order_def lookup_def list_all_iff)
  have plain: "\<And>k b. lookup (flags s) k = Some b \<Longrightarrow> k \<noteq> FlagAll \<Longrightarrow> plain_flag k"
    using pl mem by (auto simp: list_all_iff)
  have img: "?P = set (String_tokens s ks)"
    by (rule tokens_roundtrip [OF ro pl ne])
  note tok = String_tokens_set [OF ro]
  have key_val: "(all s \<and> token_key t = FlagAll \<and> token_val t)
      \<or> (\<exists>b. lookup (flags s) (token_key t) = Some b \<and> token_val t = b \<and> (b \<longrightarrow> \<not> all s)
            \<and> token_key t \<noteq> FlagAll)"
    if "t \<in> set (String_tokens s ks)" for t
    using ro that
  proof (cases rule: tokens_cases)
    case 1
    then show ?thesis by (simp add: token_all)
  next
    case (2 k)
    then show ?thesis by (auto simp: token_dash)
  next
    case 3
    from plain [OF 3(3,2)] have "plain_flag t" .
    with 3 show ?thesis by (auto simp: token_plain)
  qed
  have a: "all (NewFlagSetFromCSV ?c) = all s"
  proof -
    have "FlagAll \<in> set (String_tokens s ks) \<longleftrightarrow> all s"
    proof
      assume "FlagAll \<in> set (String_tokens s ks)"
      with ro show "all s" by (cases rule: tokens_cases) (simp_all add: FlagAll_def)
    next
      assume "all s"
      then show "FlagAll \<in> set (String_tokens s ks)" by (simp add: tok)
    qed
    then show ?thesis by (simp add: csv_all_image img)
  qed
  have n: "none (NewFlagSetFromCSV ?c) = False"
  proof -
    have "FlagNone \<notin> set (String_tokens s ks)"
    proof
      assume "FlagNone \<in> set (String_tokens s ks)"
      with ro show False
      proof (cases rule: tokens_cases)
        case 1
        then show ?thesis by (simp add: FlagAll_def FlagNone_def)
      next
        case (2 k)
        then show ?thesis by (simp add: FlagNone_def)
      next
        case 3
        from plain [OF 3(3,2)] show ?thesis by (simp add: plain_flag_def)
      qed
    qed
    then show ?thesis by (simp add: csv_none_image img)
  qed
  have look: "lookup (flags (NewFlagSetFromCSV ?c)) f = Some b \<longleftrightarrow>
      (all s \<and> f = FlagAll \<and> b) \<or> (lookup (flags s) f = Some b \<and> (b \<longrightarrow> \<not> all s) \<and> f \<noteq> FlagAll)"
    (is "?L = ?R") for b
  proof
    assume ?L
    from csv_lookup_from [OF this] obtain t where
      t: "t \<in> set (String_tokens s ks)" "token_key t = f" "token_val t = b"
      unfolding img by blast
    from key_val [OF t(1)] t(2,3) show ?R by auto
  next
    assume r: ?R
    show ?L
    proof (rule csv_lookup_set)
      from r have "(if f = FlagAll \<and> all s then FlagAll else if b then f else CHR ''-'' # f)
          \<in> set (String_tokens s ks)"
        by (cases b) (auto simp: tok)
      moreover have "token_key (if f = FlagAll \<and> all s then FlagAll else if b then f else CHR ''-'' # f) = f"
        using r plain [of f b] by (auto simp: token_all token_dash token_plain)
      ultimately show "\<exists>p\<in>?P. token_key p = f" unfolding img by blast
      show "\<forall>p\<in>?P. token_key p = f \<longrightarrow> token_val p = b"
        unfolding img
      proof (intro ballI impI)
        fix p assume p: "p \<in> set (String_tokens s ks)" "token_key p = f"
        from key_val [OF p(1)] p(2) r show "token_val p = b" by auto
      qed
    qed
  qed
  note fa = agree
  show ?thesis
  proof (cases "all s")
    case True
    have "lookup (flags (NewFlagSetFromCSV ?c)) f = Some False \<longleftrightarrow> lookup (flags s) f = Some False"
      using fa True by (auto simp: look)
    with True a n False show ?thesis by (simp add: IsEnabled_lookup String_def)
  next
    case nall: False
    have "lookup (flags (NewFlagSetFromCSV ?c)) f = Some True \<longleftrightarrow> lookup (flags s) f = Some True"
      using fa nall by (auto simp: look)
    with nall a n False show ?thesis by (simp add: IsEnabled_lookup String_def)
  qed
qed

theorem String_roundtrip_witness:
  "\<not> (all (NewFlagSetFromCSV ''all,-error'') \<and> none (NewFlagSetFromCSV ''all,-error''))
   \<and> range_order (flags (NewFlagSetFromCSV ''all,-error'')) [''error'', ''all'']
   \<and> String (NewFlagSetFromCSV ''all,-error'') [''error'', ''all''] = ''all, -error''
   \<and> IsEnabled (NewFlagSetFromCSV (String (NewFlagSetFromCSV ''all,-error'') [''error'', ''all''])) ''error''
     = IsEnabled (NewFlagSetFromCSV ''all,-error'') ''error''"
proof -
  let ?s = "NewFlagSetFromCSV ''all,-error''"
  have b: "\<not> (all ?s \<and> none ?s)" by (simp add: csv_all_error)
  have ro: "range_order (flags ?s) [''error'', ''all'']"
    by (auto simp: csv_all_error range_order_def lookup_def)
  have pl: "list_all (\<lambda>k. k = FlagAll \<or> plain_flag k) [''error'', ''all'']"
    by (simp add: plain_flag_def is_ascii_def ToLower_def lower_char_def is_upper_def Trim_def
        TrimLeft_def TrimRight_def cutset_def FlagAll_def FlagNone_def)
  have ag: "lookup (flags ?s) FlagAll \<noteq> Some (\<not> all ?s)"
    by (simp add: csv_all_error lookup_def FlagAll_def)
  have st: "String ?s [''error'', ''all''] = ''all, -error''"
    by (simp add: csv_all_error String_def String_tokens_def String_step_def lookup_def FlagAll_def)
  from String_roundtrip [of ?s "[''error'', ''all'']" "''error''"] b ro pl ag
  have "IsEnabled (NewFlagSetFromCSV (String ?s [''error'', ''all''])) ''error'' = IsEnabled ?s ''error''"
    by (simp add: csv_all_error)
  with b ro st show ?thesis by blast
qed

text \<open>
  C3 as stated fails on the empty set \<open>NewFlagSet()\<close>: \<open>String\<close> prints the empty
  string, which \<open>Split\<close> turns into one empty token, so the parsed set enables the
  empty flag and the printed one does not.
\<close>

theorem empty_set_roundtrip_counterexample:
  "\<not> isl (NewFlagSet [])
   \<and> range_order (flags (projr (NewFlagSet []))) []
   \<and> String (projr (NewFlagSet [])) [] = []
   \<and> \<not> IsEnabled (projr (NewFlagSet [])) []
   \<and> IsEnabled (NewFlagSetFromCSV (String (projr (NewFlagSet [])) [])) []"
  by (simp add: NewFlagSet_def range_order_def String_def String_tokens_def IsEnabled_lookup
      lookup_def csv_eval)

text \<open>
  C4, as the code has it. With the none bit set, \<open>String\<close> is \<open>none\<close>. Otherwise it
  joins its tokens with a comma and a blank, and for every order \<open>ks\<close> in which the
  loop visits the map the tokens are these: \<open>all\<close>, first, exactly when the all bit
  is set; \<open>-k\<close> for every key \<open>k\<close> other than \<open>all\<close> with a disabled entry; \<open>k\<close>
  for every key \<open>k\<close> other than \<open>all\<close> with an enabled entry, when the all bit is
  unset. Only the key \<open>all\<close> is left out of the loop: an entry for \<open>none\<close> is
  printed like any other.
\<close>

theorem String_tokens_emitted:
  assumes "range_order (flags efs) ks"
  shows "(none efs \<longrightarrow> String efs ks = ''none'')
     \<and> (\<not> none efs \<longrightarrow> String efs ks = Join (String_tokens efs ks) '', '')
     \<and> (FlagAll \<in> set (String_tokens efs ks) \<longleftrightarrow> all efs)
     \<and> (all efs \<longrightarrow> hd (String_tokens efs ks) = FlagAll)
     \<and> (\<forall>t. t \<in> set (String_tokens efs ks) \<longleftrightarrow>
           (all efs \<and> t = FlagAll)
         \<or> (\<exists>k. k \<noteq> FlagAll \<and> lookup (flags efs) k = Some False \<and> t = ''-'' @ k)
         \<or> (\<not> all efs \<and> (\<exists>k. k \<noteq> FlagAll \<and> lookup (flags efs) k = Some True \<and> t = k)))"
proof (intro conjI allI impI)
  assume "none efs"
  then show "String efs ks = ''none''" by (simp add: String_def FlagNone_def)
next
  assume "\<not> none efs"
  then show "String efs ks = Join (String_tokens efs ks) '', ''" by (simp add: String_def)
next
  show "FlagAll \<in> set (String_tokens efs ks) \<longleftrightarrow> all efs"
  proof
    assume "FlagAll \<in> set (String_tokens efs ks)"
    with assms show "all efs" by (cases rule: tokens_cases) (simp_all add: FlagAll_def)
  next
    assume "all efs"
    then show "FlagAll \<in> set (String_tokens efs ks)" by (simp add: String_tokens_set [OF assms])
  qed
next
  assume "all efs"
  then show "hd (String_tokens efs ks) = FlagAll" by (simp add: String_tokens_def String_fold)
next
  fix t
  show "t \<in> set (String_tokens efs ks) \<longleftrightarrow>
           (all efs \<and> t = FlagAll)
         \<or> (\<exists>k. k \<noteq> FlagAll \<and> lookup (flags efs) k = Some False \<and> t = ''-'' @ k)
         \<or> (\<not> all efs \<and> (\<exists>k. k \<noteq> FlagAll \<and> lookup (flags efs) k = Some True \<and> t = k))"
    by (rule String_tokens_set [OF assms])
qed

theorem String_tokens_emitted_witness:
  "range_order (flags (NewFlagSetFromCSV ''all,-error'')) [''error'', ''all'']
   \<and> String (NewFlagSetFromCSV ''all,-error'') [''error'', ''all''] = ''all, -error''
   \<and> FlagAll \<in> set (String_tokens (NewFlagSetFromCSV ''all,-error'') [''error'', ''all''])"
proof -
  let ?s = "NewFlagSetFromCSV ''all,-error''"
  have ro: "range_order (flags ?s) [''error'', ''all'']"
    by (auto simp: csv_all_error range_order_def lookup_def)
  have a: "all ?s" "\<not> none ?s" by (simp_all add: csv_all_error)
  from String_tokens_emitted [OF ro] a
  have "String ?s [''error'', ''all''] = Join (String_tokens ?s [''error'', ''all'']) '', ''"
    and m: "FlagAll \<in> set (String_tokens ?s [''error'', ''all''])"
    by blast+
  moreover have "String_tokens ?s [''error'', ''all''] = [''all'', ''-error'']"
    by (simp add: csv_all_error String_tokens_def String_step_def lookup_def FlagAll_def)
  ultimately have "String ?s [''error'', ''all''] = ''all, -error''" by simp
  with ro m show ?thesis by blast
qed

text \<open>
  C4 as stated fails for the reserved flag \<open>none\<close>, which the loop does not leave
  out: the set parsed from \<open>-none\<close> has the none bit unset and prints \<open>-none\<close>, and
  \<open>NewFlagSet(FlagNone)\<close> has the none bit unset and the token \<open>none\<close>.
\<close>

theorem none_entry_printed_counterexample:
  "\<not> none (NewFlagSetFromCSV ''-none'')
   \<and> range_order (flags (NewFlagSetFromCSV ''-none'')) [''none'']
   \<and> String (NewFlagSetFromCSV ''-none'') [''none''] = ''-none''
   \<and> \<not> isl (NewFlagSet [''none''])
   \<and> \<not> none (projr (NewFlagSet [''none'']))
   \<and> range_order (flags (projr (NewFlagSet [''none'']))) [''none'']
   \<and> String_tokens (projr (NewFlagSet [''none''])) [''none''] = [''none'']"
  by (auto simp: csv_eval NewFlagSet_def Enable_def assign_def range_order_def String_def
      String_tokens_def String_step_def lookup_def)

text \<open>
  C5. After \<open>SetNone\<close> the map is allocated and empty, the all bit is unset, the none
  bit is set, and no flag is enabled.
\<close>

theorem SetNone_clears:
  "flags (SetNone s) = Some Map.empty \<and> \<not> all (SetNone s) \<and> none (SetNone s)
   \<and> (\<forall>f. \<not> IsEnabled (SetNone s) f)"
  by (simp add: SetNone_def IsEnabled_lookup)

theorem SetNone_clears_witness:
  "IsEnabled (NewFlagSetFromCSV ''error'') ''error''
   \<and> \<not> IsEnabled (SetNone (NewFlagSetFromCSV ''error'')) ''error''"
proof -
  have "IsEnabled (NewFlagSetFromCSV ''error'') ''error''" by code_simp
  with SetNone_clears [of "NewFlagSetFromCSV ''error''"] show ?thesis by blast
qed

text \<open>
  C6, as the code has it. On a set whose map is allocated, \<open>SetAll\<close> followed by
  \<open>Disable x\<close> returns; after it \<open>x\<close> is not enabled, and any other flag is enabled
  unless it had an explicit disabled entry before, since \<open>SetAll\<close> keeps the
  entries. On the set parsed from \<open>all,-error\<close>, \<open>error\<close> is not enabled and every
  other flag is.
\<close>

theorem SetAll_Disable_verdicts:
  "(flags s \<noteq> None \<longrightarrow> \<not> isl (Disable (SetAll s) x))
   \<and> (\<forall>s'. Disable (SetAll s) x = Inr s' \<longrightarrow>
         \<not> IsEnabled s' x
         \<and> (\<forall>y. y \<noteq> x \<longrightarrow> IsEnabled s' y = (lookup (flags s) y \<noteq> Some False)))
   \<and> \<not> IsEnabled (NewFlagSetFromCSV ''all,-error'') ''error''
   \<and> (\<forall>y. y \<noteq> ''error'' \<longrightarrow> IsEnabled (NewFlagSetFromCSV ''all,-error'') y)"
proof (intro conjI allI impI)
  assume "flags s \<noteq> None"
  then show "\<not> isl (Disable (SetAll s) x)"
    by (auto simp: Disable_def SetAll_def assign_def)
next
  fix s' assume d: "Disable (SetAll s) x = Inr s'"
  then obtain m where m: "flags s = Some m" "s' = (SetAll s)\<lparr>flags := Some (m(x \<mapsto> False))\<rparr>"
    by (auto simp: Disable_def SetAll_def assign_def split: option.splits)
  then show "\<not> IsEnabled s' x" by (simp add: IsEnabled_lookup SetAll_def lookup_def)
  fix y assume "y \<noteq> x"
  with m show "IsEnabled s' y = (lookup (flags s) y \<noteq> Some False)"
    by (simp add: IsEnabled_lookup SetAll_def lookup_def)
next
  show "\<not> IsEnabled (NewFlagSetFromCSV ''all,-error'') ''error''"
    by (simp add: csv_all_error IsEnabled_lookup lookup_def)
next
  fix y :: Flag assume "y \<noteq> ''error''"
  then show "IsEnabled (NewFlagSetFromCSV ''all,-error'') y"
    by (simp add: csv_all_error IsEnabled_lookup lookup_def)
qed

theorem SetAll_Disable_verdicts_witness:
  "\<not> isl (Disable (SetAll NewFlagSetNone) ''debug'')
   \<and> \<not> IsEnabled (projr (Disable (SetAll NewFlagSetNone) ''debug'')) ''debug''
   \<and> IsEnabled (projr (Disable (SetAll NewFlagSetNone) ''debug'')) ''info''"
proof -
  have f: "flags NewFlagSetNone \<noteq> None" by (simp add: NewFlagSetNone_def)
  from SetAll_Disable_verdicts [of NewFlagSetNone "''debug''"] f
  have r: "\<not> isl (Disable (SetAll NewFlagSetNone) ''debug'')" by blast
  then obtain s' where s': "Disable (SetAll NewFlagSetNone) ''debug'' = Inr s'"
    by (cases "Disable (SetAll NewFlagSetNone) ''debug''") auto
  from SetAll_Disable_verdicts [of NewFlagSetNone "''debug''"] s'
  have "\<not> IsEnabled s' ''debug''"
    and "IsEnabled s' ''info'' = (lookup (flags NewFlagSetNone) ''info'' \<noteq> Some False)"
    by auto
  with r s' show ?thesis by (simp add: NewFlagSetNone_def lookup_def)
qed

text \<open>
  C6 as stated fails on a set that already has a disabled entry: after parsing
  \<open>-y\<close>, \<open>SetAll\<close> and \<open>Disable x\<close>, the other flag \<open>y\<close> is not enabled.
\<close>

theorem prior_disable_counterexample:
  "\<not> isl (Disable (SetAll (NewFlagSetFromCSV ''-y'')) ''x'')
   \<and> \<not> IsEnabled (projr (Disable (SetAll (NewFlagSetFromCSV ''-y'')) ''x'')) ''y''"
  by code_simp

text \<open>
  C10, as the code has it. The parser lower-cases and trims a token before it stores
  it, and lookups compare bytes. For every ASCII token \<open>t\<close> without a comma that has a
  capital letter, in the set parsed from \<open>t\<close> the lower-cased, trimmed token is
  enabled unless it is \<open>none\<close> or starts with a dash, and \<open>t\<close> itself is not enabled
  unless the lower-cased, trimmed token is \<open>all\<close>.
\<close>

theorem csv_lowercases:
  assumes "is_ascii t" and "CHR '','' \<notin> set t" and "list_ex is_upper t"
  shows "IsEnabled (NewFlagSetFromCSV t) (parsed t)
           = (parsed t \<noteq> FlagNone \<and> \<not> HasPrefix (parsed t) ''-'')
       \<and> IsEnabled (NewFlagSetFromCSV t) t = (parsed t = FlagAll)"
proof
  show "IsEnabled (NewFlagSetFromCSV t) (parsed t)
           = (parsed t \<noteq> FlagNone \<and> \<not> HasPrefix (parsed t) ''-'')"
  proof (cases "HasPrefix (parsed t) ''-''")
    case True
    then obtain r where r: "parsed t = CHR ''-'' # r" by (auto simp: HasPrefix_dash)
    then show ?thesis
      by (simp add: csv_single [OF assms(2)] IsEnabled_lookup lookup_def token_key_def
          token_val_def TrimPrefix_def FlagAll_def)
  next
    case False
    then show ?thesis
      by (auto simp: csv_single [OF assms(2)] IsEnabled_lookup lookup_def token_key_def
          token_val_def TrimPrefix_def FlagAll_def FlagNone_def)
  qed
next
  from assms(3) obtain c where c: "c \<in> set t" "is_upper c" by (auto simp: list_ex_iff)
  have "t \<noteq> token_key (parsed t)"
  proof
    assume "t = token_key (parsed t)"
    with c(1) token_key_subset [of "parsed t"] have "c \<in> set (parsed t)" by auto
    with c(2) show False by (auto dest: parsed_no_upper)
  qed
  then show "IsEnabled (NewFlagSetFromCSV t) t = (parsed t = FlagAll)"
    by (auto simp: csv_single [OF assms(2)] IsEnabled_lookup lookup_def FlagAll_def FlagNone_def)
qed

theorem csv_lowercases_witness:
  "is_ascii ''ERROR'' \<and> CHR '','' \<notin> set ''ERROR'' \<and> list_ex is_upper ''ERROR''
   \<and> parsed ''ERROR'' = ''error''
   \<and> IsEnabled (NewFlagSetFromCSV ''ERROR'') ''error''
   \<and> \<not> IsEnabled (NewFlagSetFromCSV ''ERROR'') ''ERROR''"
proof -
  have h: "is_ascii ''ERROR''" "CHR '','' \<notin> set ''ERROR''" "list_ex is_upper ''ERROR''"
    by (simp_all add: is_ascii_def is_upper_def)
  have p: "parsed ''ERROR'' = ''error''" by code_simp
  from csv_lowercases [OF h] p
  have "IsEnabled (NewFlagSetFromCSV ''ERROR'') ''error''"
    and "\<not> IsEnabled (NewFlagSetFromCSV ''ERROR'') ''ERROR''"
    by (simp_all add: FlagAll_def FlagNone_def)
  with h p show ?thesis by blast
qed

text \<open>
  C10 as stated fails for the reserved words: parsing \<open>ALL\<close> sets the all bit, so
  \<open>ALL\<close> is enabled, and parsing \<open>NONE\<close> sets the none bit, so \<open>none\<close> is not.
\<close>

theorem reserved_words_counterexample:
  "list_ex is_upper ''ALL'' \<and> IsEnabled (NewFlagSetFromCSV ''ALL'') ''ALL''
   \<and> list_ex is_upper ''NONE'' \<and> \<not> IsEnabled (NewFlagSetFromCSV ''NONE'') ''none''"
  by code_simp

section \<open>The claims about the worker\<close>

text \<open>
  C7. For every listener, event and thread, \<open>Process\<close> calls the listener with the
  event and returns, also when the listener panics. When it panics with \<open>v\<close>, a
  parent, if there is one, receives \<open>v\<close> as one more fatal report, and without a
  parent nothing is reported. The loop goes on: in a running worker whose channel
  holds \<open>e\<close> first, after the turn that processes \<open>e\<close> the loop is still running,
  and an event sent afterwards is passed to the listener once the loop has taken
  what was queued before it.
\<close>

theorem Process_fault_isolation:
  "fst (Process th w e) = Returned
   \<and> calls (snd (Process th w e)) = calls w @ [(th, e)]
   \<and> (\<forall>v. fst (Listener w e (lstate w)) = Panicked v \<longrightarrow>
         Parent (snd (Process th w e)) =
           (case Parent w of None \<Rightarrow> None | Some p \<Rightarrow> Some (SyncFatalf p v)))
   \<and> (IsRunning w \<and> Work w = e # q \<and> length q < DefaultWorkerQueueDepth \<longrightarrow>
        (\<exists>w1 w2 w3. loop [WorkCase] w = (Waiting, w1) \<and> IsRunning w1
           \<and> Enqueue w1 e2 = Some w2
           \<and> loop (replicate (length (Work w2)) WorkCase) w2 = (Waiting, w3) \<and> IsRunning w3
           \<and> calls w3 = calls w @ (LoopThread, e) # map (Pair LoopThread) q @ [(LoopThread, e2)]))"
proof (intro conjI allI impI)
  show "fst (Process th w e) = Returned" by (rule Process_exit)
  show "calls (snd (Process th w e)) = calls w @ [(th, e)]" by (rule Process_fields)
next
  fix v assume "fst (Listener w e (lstate w)) = Panicked v"
  then show "Parent (snd (Process th w e)) =
      (case Parent w of None \<Rightarrow> None | Some p \<Rightarrow> Some (SyncFatalf p v))"
    by (simp add: Process_Parent)
next
  assume a: "IsRunning w \<and> Work w = e # q \<and> length q < DefaultWorkerQueueDepth"
  from Process_result [of LoopThread "w\<lparr>Work := q\<rparr>" e] obtain w1 where
    w1: "Process LoopThread (w\<lparr>Work := q\<rparr>) e = (Returned, w1)" "Work w1 = q"
      "IsRunning w1 = IsRunning w" "Listener w1 = Listener w" "calls w1 = calls w @ [(LoopThread, e)]"
    by auto
  have l1: "loop [WorkCase] w = (Waiting, w1)" using a w1 by simp
  define w2 where "w2 = w1\<lparr>Work := Work w1 @ [e2]\<rparr>"
  have enq: "Enqueue w1 e2 = Some w2" using a w1 by (simp add: Enqueue_def w2_def)
  have run2: "IsRunning w2" using a w1 by (simp add: w2_def)
  from loop_work [OF run2 refl] obtain w3 where
    w3: "loop (replicate (length (Work w2)) WorkCase) w2 = (Waiting, w3)" "IsRunning w3"
      "calls w3 = calls w2 @ map (Pair LoopThread) (Work w2)"
    by blast
  have "calls w3 = calls w @ (LoopThread, e) # map (Pair LoopThread) q @ [(LoopThread, e2)]"
    using w3(3) w1 by (simp add: w2_def)
  with l1 enq w3 a w1 show "\<exists>w1 w2 w3. loop [WorkCase] w = (Waiting, w1) \<and> IsRunning w1
           \<and> Enqueue w1 e2 = Some w2
           \<and> loop (replicate (length (Work w2)) WorkCase) w2 = (Waiting, w3) \<and> IsRunning w3
           \<and> calls w3 = calls w @ (LoopThread, e) # map (Pair LoopThread) q @ [(LoopThread, e2)]"
    by blast
qed

theorem Process_fault_isolation_witness:
  "fst (Listener faulty_worker 1 (lstate faulty_worker)) = Panicked ''boom''
   \<and> fst (Process LoopThread faulty_worker 1) = Returned
   \<and> Parent (snd (Process LoopThread faulty_worker 1)) = Some [''boom'']
   \<and> (\<exists>w1 w2 w3. loop [WorkCase] faulty_worker = (Waiting, w1) \<and> IsRunning w1
         \<and> Enqueue w1 2 = Some w2
         \<and> loop (replicate (length (Work w2)) WorkCase) w2 = (Waiting, w3) \<and> IsRunning w3
         \<and> calls w3 = [(LoopThread, 1), (LoopThread, 2)])"
proof -
  have p: "fst (Listener faulty_worker 1 (lstate faulty_worker)) = Panicked ''boom''"
    by (simp add: faulty_worker_def NewWorker_def faulty_def)
  have h: "IsRunning faulty_worker \<and> Work faulty_worker = 1 # []
      \<and> length ([] :: nat list) < DefaultWorkerQueueDepth"
    by (simp add: faulty_worker_def NewWorker_def DefaultWorkerQueueDepth_def)
  note t = Process_fault_isolation [of LoopThread faulty_worker 1 "[]" 2]
  from t have "fst (Process LoopThread faulty_worker 1) = Returned" by blast
  moreover from t p have "Parent (snd (Process LoopThread faulty_worker 1)) = Some [''boom'']"
    by (simp add: faulty_worker_def NewWorker_def SyncFatalf_def)
  moreover from t h have "\<exists>w1 w2 w3. loop [WorkCase] faulty_worker = (Waiting, w1) \<and> IsRunning w1
         \<and> Enqueue w1 2 = Some w2
         \<and> loop (replicate (length (Work w2)) WorkCase) w2 = (Waiting, w3) \<and> IsRunning w3
         \<and> calls w3 = [(LoopThread, 1), (LoopThread, 2)]"
    by (simp add: faulty_worker_def NewWorker_def)
  ultimately show ?thesis using p by blast
qed

text \<open>
  C8, as the code has it. \<open>Drain\<close> calls \<open>Stop\<close> and then empties the channel. With
  no producer sending meanwhile it returns, the worker is stopped, the channel is
  empty, and the listener has been called with every event that was in the channel
  when \<open>Drain\<close> was called, oldest first. The events still in the channel when
  \<open>Stop\<close> returns are processed on the caller's thread; on a running worker the
  loop may take the first \<open>n\<close> of them itself before it takes the abort.
\<close>

theorem Drain_delivers:
  "\<exists>w'. Drain n w = Inr w' \<and> \<not> IsRunning w' \<and> Work w' = []
     \<and> map snd (calls w') = map snd (calls w) @ Work w
     \<and> calls w' = calls w
          @ map (Pair LoopThread) (take (if IsRunning w then min n (length (Work w)) else 0) (Work w))
          @ map (Pair CallerThread) (drop (if IsRunning w then min n (length (Work w)) else 0) (Work w))"
proof -
  define k where "k = (if IsRunning w then min n (length (Work w)) else 0)"
  from Stop_effect [of n w] obtain w1 where
    w1: "Stop n w = Inr w1" "\<not> IsRunning w1" "Work w1 = drop k (Work w)"
      "calls w1 = calls w @ map (Pair LoopThread) (take k (Work w))"
    unfolding k_def by blast
  from drain_loop_all [of w1 "drop k (Work w)"] w1 obtain w' where
    w': "drain_loop w1 = Inr w'" "Work w' = []" "IsRunning w' = IsRunning w1"
      "calls w' = calls w1 @ map (Pair CallerThread) (drop k (Work w))"
    by blast
  have "map snd (calls w') = map snd (calls w) @ (take k (Work w) @ drop k (Work w))"
    using w' w1 by (simp add: comp_def)
  then have "map snd (calls w') = map snd (calls w) @ Work w" by simp
  with w1 w' show ?thesis unfolding k_def [symmetric] by (simp add: Drain_def)
qed

theorem Drain_delivers_witness:
  "\<not> isl (Drain 0 busy_worker)
   \<and> calls (projr (Drain 0 busy_worker)) = [(CallerThread, 1), (CallerThread, 2)]"
proof -
  from Drain_delivers [of 0 busy_worker] obtain w' where
    "Drain 0 busy_worker = Inr w'"
    "calls w' = calls busy_worker
       @ map (Pair LoopThread) (take (if IsRunning busy_worker then min 0 (length (Work busy_worker)) else 0) (Work busy_worker))
       @ map (Pair CallerThread) (drop (if IsRunning busy_worker then min 0 (length (Work busy_worker)) else 0) (Work busy_worker))"
    by blast
  then show ?thesis by (simp add: busy_worker_def NewWorker_def)
qed

text \<open>
  C8 as stated fails on a running worker with two events queued, when the loop takes
  the \<open>Work\<close> case once more before the \<open>Abort\<close> case: the first event is processed
  on the loop's thread, not on the caller's.
\<close>

theorem Drain_loop_thread_counterexample:
  "IsRunning busy_worker \<and> Work busy_worker = [1, 2]
   \<and> \<not> isl (Drain 1 busy_worker)
   \<and> calls (projr (Drain 1 busy_worker)) = [(LoopThread, 1), (CallerThread, 2)]"
  by (simp add: busy_worker_def Drain_def Stop_def NewWorker_def Process_def recover_def)

section \<open>The claim about the text writer\<close>

text \<open>
  C9. With an empty label, the timestamp and the label switched on and colour
  switched off, \<open>write_to\<close> hands to the output the leased buffer followed by the
  timestamp in the writer's time format (the default one when that is empty), a
  blank, the flag in brackets, a blank, the body and a newline, with nothing for the
  label. The body is what the event's \<open>WriteText\<close> appends to the buffer, else what
  its \<open>String\<close> returns, else nothing.
\<close>

theorem write_plain_line:
  assumes "label wr = []" and "showTimestamp wr" and "showLabel wr" and "\<not> useColor wr"
    and "case WriteText e of
           Some wt \<Rightarrow> \<forall>b. wt wr b = b @ body
         | None \<Rightarrow> body = (case Stringer e of Some s \<Rightarrow> s | None \<Rightarrow> [])"
  shows "fst (write_to wr d output buf e) =
     buf @ Format d (Timestamp e) (if timeFormat wr = [] then DefaultTextTimeFormat else timeFormat wr)
       @ '' ['' @ Flag e @ ''] '' @ body @ [CHR 0x0A]"
proof -
  have ts: "FormatTimestamp wr d [Timestamp e] =
      Format d (Timestamp e) (if timeFormat wr = [] then DefaultTextTimeFormat else timeFormat wr)"
    using assms(4) by (simp add: FormatTimestamp_def Colorize_def)
  have fl: "FormatFlag wr d (Flag e) c = ''['' @ Flag e @ '']''" for c
    using assms(4) by (simp add: FormatFlag_def Colorize_def)
  show ?thesis
  proof (cases "WriteText e")
    case None
    with assms(5) have "body = (case Stringer e of Some s \<Rightarrow> s | None \<Rightarrow> [])" by simp
    with None assms(1-3) show ?thesis
      by (simp add: write_to_def Let_def ts fl RuneSpace_def RuneNewline_def
          split: option.splits)
  next
    case (Some wt)
    with assms(5) have "\<And>b. wt wr b = b @ body" by simp
    with Some assms(1-3) show ?thesis
      by (simp add: write_to_def Let_def ts fl RuneSpace_def RuneNewline_def
          split: option.splits)
  qed
qed

theorem write_plain_line_witness:
  "label plain_writer = [] \<and> showTimestamp plain_writer \<and> showLabel plain_writer
   \<and> \<not> useColor plain_writer
   \<and> fst (write_to plain_writer stub_deps (\<lambda>b. None :: unit option) [] ping)
       = ''T15:04 [ping] ok'' @ [CHR 0x0A]"
proof -
  have h: "label plain_writer = []" "showTimestamp plain_writer" "showLabel plain_writer"
    "\<not> useColor plain_writer"
    by (simp_all add: plain_writer_def)
  have b: "case WriteText ping of
             Some wt \<Rightarrow> \<forall>b. wt plain_writer b = b @ ''ok''
           | None \<Rightarrow> ''ok'' = (case Stringer ping of Some s \<Rightarrow> s | None \<Rightarrow> [])"
    by (simp add: ping_def)
  from write_plain_line [OF h b, of stub_deps "\<lambda>b. None :: unit option" "[]"]
  have "fst (write_to plain_writer stub_deps (\<lambda>b. None :: unit option) [] ping)
       = ''T15:04 [ping] ok'' @ [CHR 0x0A]"
    by (simp add: plain_writer_def ping_def stub_deps_def)
  with h show ?thesis by blast
qed

end
